theory Spec2Isabelle
  imports Main
begin

section \<open>Errors\<close>

text \<open>
  The error values the program handles. \<open>EOF\<close> is \<open>io.EOF\<close>; \<open>ParseError\<close> is the
  \<open>*csv.ParseError\<close> of \<open>encoding/csv\<close>, identified by its \<open>Err\<close> field (the line and column
  it also carries are not modelled); \<open>ErrorString\<close> is an error made by \<open>errors.New\<close> or
  \<open>fmt.Errorf\<close>, identified by its message; \<open>ExternalError\<close> is an error handed back by
  \<open>os\<close>, \<open>net/http\<close>, \<open>encoding/json\<close> or \<open>gin\<close>; \<open>IndexOutOfRange\<close> is the run-time panic of
  an index expression \<open>headers[i]\<close> with \<open>i \<ge> len(headers)\<close>.
\<close>

datatype ErrKind = ErrBareQuote | ErrQuote | ErrFieldCount

datatype error =
    EOF
  | ParseError ErrKind
  | ErrorString string
  | ExternalError string
  | IndexOutOfRange

section \<open>The reader of \<open>encoding/csv\<close>\<close>

text \<open>
  \<open>CsvToSlice\<close> reads its input with \<open>csv.NewReader\<close> and \<open>ReadAll\<close> of Go's standard library.
  The reader is modelled over the bytes of the input for the configuration the program uses:
  \<open>Comma = ','\<close>, no comment character, \<open>LazyQuotes = false\<close>, and the two fields the program
  or the reader itself changes, \<open>TrimLeadingSpace\<close> and \<open>FieldsPerRecord\<close>. The library
  documents the latter so: \<open>If FieldsPerRecord is positive, Read requires each record to have
  the given number of fields. If FieldsPerRecord is 0, Read sets it to the number of fields in
  the first record, so that future records must have the same field count. If FieldsPerRecord
  is negative, no check is made and records may have a variable number of fields.\<close>
  \<open>NewReader\<close> leaves it 0 and \<open>CsvToSlice\<close> does not set it.
\<close>

record Reader =
  TrimLeadingSpace :: bool
  FieldsPerRecord :: int
  input :: string

definition NewReader :: "string \<Rightarrow> Reader" where
  "NewReader data = \<lparr>TrimLeadingSpace = False, FieldsPerRecord = 0, input = data\<rparr>"

text \<open>
  \<open>readLine\<close>: the next line with its final newline, and the input after it; \<open>None\<close> at the end
  of the input. A carriage return before the newline is dropped, and so is one that ends the
  input.
\<close>

definition readLine :: "string \<Rightarrow> (string \<times> string) option" where
  "readLine inp =
     (if inp = [] then None
      else
        let body = takeWhile (\<lambda>c. c \<noteq> CHR 0x0A) inp;
            after = dropWhile (\<lambda>c. c \<noteq> CHR 0x0A) inp;
            body' = (if body \<noteq> [] \<and> last body = CHR 0x0D then butlast body else body)
        in (case after of
              [] \<Rightarrow> Some (body', [])
            | nl # rest \<Rightarrow> Some (body' @ [nl], rest)))"

definition lengthNL :: "string \<Rightarrow> nat" where
  "lengthNL b = (if b \<noteq> [] \<and> last b = CHR 0x0A then 1 else 0)"

text \<open>
  The UTF-8 encodings of the code points for which \<open>unicode.IsSpace\<close> holds: tab, newline,
  vertical tab, form feed, carriage return, space, U+0085, U+00A0, U+1680, U+2000 to U+200A,
  U+2028, U+2029, U+202F, U+205F and U+3000.
\<close>

definition spaceRunes :: "string list" where
  "spaceRunes =
     [[CHR 0x09], [CHR 0x0A], [CHR 0x0B], [CHR 0x0C], [CHR 0x0D], [CHR 0x20],
      [CHR 0xC2, CHR 0x85], [CHR 0xC2, CHR 0xA0],
      [CHR 0xE1, CHR 0x9A, CHR 0x80],
      [CHR 0xE2, CHR 0x80, CHR 0x80], [CHR 0xE2, CHR 0x80, CHR 0x81],
      [CHR 0xE2, CHR 0x80, CHR 0x82], [CHR 0xE2, CHR 0x80, CHR 0x83],
      [CHR 0xE2, CHR 0x80, CHR 0x84], [CHR 0xE2, CHR 0x80, CHR 0x85],
      [CHR 0xE2, CHR 0x80, CHR 0x86], [CHR 0xE2, CHR 0x80, CHR 0x87],
      [CHR 0xE2, CHR 0x80, CHR 0x88], [CHR 0xE2, CHR 0x80, CHR 0x89],
      [CHR 0xE2, CHR 0x80, CHR 0x8A],
      [CHR 0xE2, CHR 0x80, CHR 0xA8], [CHR 0xE2, CHR 0x80, CHR 0xA9],
      [CHR 0xE2, CHR 0x80, CHR 0xAF],
      [CHR 0xE2, CHR 0x81, CHR 0x9F],
      [CHR 0xE3, CHR 0x80, CHR 0x80]]"

definition spaceRuneLen :: "string \<Rightarrow> nat" where
  "spaceRuneLen line =
     (case find (\<lambda>p. take (length p) line = p) spaceRunes of
        None \<Rightarrow> 0
      | Some p \<Rightarrow> length p)"

text \<open>\<open>line[i:]\<close> for \<open>i\<close> the index of the first rune that is not a space (the length of
  the line when there is none).\<close>

function trimLeadingSpace :: "string \<Rightarrow> string" where
  "trimLeadingSpace line =
     (if line = [] \<or> spaceRuneLen line = 0 then line
      else trimLeadingSpace (drop (spaceRuneLen line) line))"
  by pat_completeness auto
termination
  by (relation "measure length") simp_all

declare trimLeadingSpace.simps [simp del]

text \<open>The measure that decreases in the two loops over the fields of a record: the bytes left.\<close>

definition parseSize ::
  "(bool \<times> string \<times> string \<times> string list) + (bool \<times> string \<times> string \<times> string \<times> string list) \<Rightarrow> nat" where
  "parseSize a =
     (case a of
        Inl (trim, line, rest, flds) \<Rightarrow> length line + length rest
      | Inr (trim, line, rest, buf, flds) \<Rightarrow> length line + length rest)"

lemma trimLeadingSpace_length: "length (trimLeadingSpace line) \<le> length line"
proof (induction line rule: trimLeadingSpace.induct)
  case (1 line)
  show ?case
  proof (cases "line = [] \<or> spaceRuneLen line = 0")
    case True
    then show ?thesis by (subst trimLeadingSpace.simps) simp
  next
    case False
    with 1 have "length (trimLeadingSpace (drop (spaceRuneLen line) line))
        \<le> length (drop (spaceRuneLen line) line)"
      by blast
    with False show ?thesis by (subst trimLeadingSpace.simps) simp
  qed
qed

lemma readLine_length:
  assumes "readLine inp = Some (line, rest)"
  shows "length line + length rest \<le> length inp" and "length rest < length inp"
proof -
  let ?P = "\<lambda>c. c \<noteq> CHR 0x0A"
  have ne: "inp \<noteq> []" using assms by (auto simp: readLine_def)
  have tot: "length (takeWhile ?P inp) + length (dropWhile ?P inp) = length inp"
    by (metis length_append takeWhile_dropWhile_id)
  have bl: "\<And>xs::string.
      length (if xs \<noteq> [] \<and> last xs = CHR 0x0D then butlast xs else xs) \<le> length xs"
    by simp
  show "length line + length rest \<le> length inp"
    using assms ne tot bl[of "takeWhile ?P inp"]
    by (auto simp: readLine_def Let_def split: list.splits if_splits)
  show "length rest < length inp"
    using assms ne tot
    by (auto simp: readLine_def Let_def split: list.splits if_splits)
qed

text \<open>
  The field loop of \<open>readRecord\<close> (its label \<open>parseField\<close>) and, inside it, the loop over a
  quoted field. \<open>line\<close> is what is left of the current line, \<open>rest\<close> the input after it,
  \<open>flds\<close> the fields read so far and \<open>buf\<close> the text of the quoted field so far. A quoted
  field may run over several lines, each fetched with \<open>readLine\<close>. The result is the record and
  the input left, or the kind of the parse error.
\<close>

function parseField :: "bool \<Rightarrow> string \<Rightarrow> string \<Rightarrow> string list \<Rightarrow> ErrKind + (string list \<times> string)"
  and parseQuoted :: "bool \<Rightarrow> string \<Rightarrow> string \<Rightarrow> string \<Rightarrow> string list \<Rightarrow> ErrKind + (string list \<times> string)"
where
  "parseField trim line0 rest flds =
     (let line = (if trim then trimLeadingSpace line0 else line0) in
      if line = [] \<or> hd line \<noteq> CHR 0x22 then
        (let field = takeWhile (\<lambda>c. c \<noteq> CHR '','') line in
         if length field < length line
         then (if CHR 0x22 \<in> set field then Inl ErrBareQuote
               else parseField trim (drop (length field + 1) line) rest (flds @ [field]))
         else (let field' = take (length field - lengthNL field) field in
               if CHR 0x22 \<in> set field' then Inl ErrBareQuote
               else Inr (flds @ [field'], rest)))
      else parseQuoted trim (tl line) rest [] flds)"
| "parseQuoted trim line rest buf flds =
     (if CHR 0x22 \<in> set line then
        (let pre = takeWhile (\<lambda>c. c \<noteq> CHR 0x22) line;
             line' = drop (length pre + 1) line in
         if line' \<noteq> [] \<and> hd line' = CHR 0x22
           then parseQuoted trim (tl line') rest (buf @ pre @ [CHR 0x22]) flds
         else if line' \<noteq> [] \<and> hd line' = CHR '',''
           then parseField trim (tl line') rest (flds @ [buf @ pre])
         else if lengthNL line' = length line'
           then Inr (flds @ [buf @ pre], rest)
         else Inl ErrQuote)
      else if line \<noteq> [] then
        (case readLine rest of
           None \<Rightarrow> Inl ErrQuote
         | Some (line', rest') \<Rightarrow> parseQuoted trim line' rest' (buf @ line) flds)
      else Inl ErrQuote)"
  by pat_completeness auto
termination
proof (relation "measure parseSize")
  show "wf (measure parseSize)"
    by simp
next
  fix trim :: bool and line0 rest :: string and flds :: "string list" and x xa :: string
  assume "x = (if trim then trimLeadingSpace line0 else line0)" "length xa < length x"
  then show "(Inl (trim, drop (length xa + 1) x, rest, flds @ [xa]), Inl (trim, line0, rest, flds))
      \<in> measure parseSize"
    using trimLeadingSpace_length[of line0] by (simp add: parseSize_def split: if_splits)
next
  fix trim :: bool and line0 rest :: string and flds :: "string list" and x :: string
  assume a: "x = (if trim then trimLeadingSpace line0 else line0)"
    "\<not> (x = [] \<or> hd x \<noteq> CHR 0x22)"
  then have l0: "0 < length x" by simp
  have l1: "length (tl x) = length x - 1" by simp
  have l2: "length x \<le> length line0"
    using trimLeadingSpace_length[of line0] a(1) by (simp split: if_splits)
  from l0 l1 l2 have "length (tl x) < length line0" by arith
  then show "(Inr (trim, tl x, rest, [], flds), Inl (trim, line0, rest, flds))
      \<in> measure parseSize"
    by (simp add: parseSize_def)
next
  fix trim :: bool and line rest buf :: string and flds :: "string list" and x xa :: string
  assume "xa = drop (length x + 1) line" "xa \<noteq> [] \<and> hd xa = CHR 0x22"
  then show "(Inr (trim, tl xa, rest, buf @ x @ [CHR 0x22], flds), Inr (trim, line, rest, buf, flds))
      \<in> measure parseSize"
    by (cases xa) (auto simp: parseSize_def)
next
  fix trim :: bool and line rest buf :: string and flds :: "string list" and x xa :: string
  assume "xa = drop (length x + 1) line" "xa \<noteq> [] \<and> hd xa = CHR '',''"
  then show "(Inl (trim, tl xa, rest, flds @ [buf @ x]), Inr (trim, line, rest, buf, flds))
      \<in> measure parseSize"
    by (cases xa) (auto simp: parseSize_def)
next
  fix trim :: bool and line rest buf :: string and flds :: "string list"
    and x2 and x y :: string
  assume "line \<noteq> []" "readLine rest = Some x2" "(x, y) = x2"
  then show "(Inr (trim, x, y, buf @ line, flds), Inr (trim, line, rest, buf, flds))
      \<in> measure parseSize"
    using readLine_length(1)[of rest x y] by (cases line) (auto simp: parseSize_def)
qed

declare parseField.simps [simp del] parseQuoted.simps [simp del]

lemma parse_result:
  "parseField trim line0 rest flds = Inr (dst, rest') \<Longrightarrow>
     length rest' \<le> length rest \<and> length flds < length dst"
  "parseQuoted trim line rest buf flds = Inr (dst, rest') \<Longrightarrow>
     length rest' \<le> length rest \<and> length flds < length dst"
proof (induction trim line0 rest flds and trim line rest buf flds
       arbitrary: dst rest' and dst rest' rule: parseField_parseQuoted.induct)
  case (1 trim line0 rest flds)
  define line where "line = (if trim then trimLeadingSpace line0 else line0)"
  define field where "field = takeWhile (\<lambda>c. c \<noteq> CHR '','') line"
  define field' where "field' = take (length field - lengthNL field) field"
  have eq: "parseField trim line0 rest flds =
     (if line = [] \<or> hd line \<noteq> CHR 0x22 then
        (if length field < length line
         then (if CHR 0x22 \<in> set field then Inl ErrBareQuote
               else parseField trim (drop (length field + 1) line) rest (flds @ [field]))
         else (if CHR 0x22 \<in> set field' then Inl ErrBareQuote
               else Inr (flds @ [field'], rest)))
      else parseQuoted trim (tl line) rest [] flds)"
    unfolding line_def field_def field'_def
    by (subst parseField.simps) (simp only: Let_def)
  show ?case
  proof (cases "line = [] \<or> hd line \<noteq> CHR 0x22")
    case unquoted: True
    show ?thesis
    proof (cases "length field < length line")
      case comma: True
      from "1.prems" eq unquoted comma
      have nb: "CHR 0x22 \<notin> set field"
        and rec: "parseField trim (drop (length field + 1) line) rest (flds @ [field])
                    = Inr (dst, rest')"
        by (simp_all split: if_splits)
      from "1.IH"(1)[OF line_def unquoted field_def comma nb rec] show ?thesis
        by simp
    next
      case False
      with "1.prems" eq unquoted show ?thesis
        by (auto split: if_splits)
    qed
  next
    case quoted: False
    with "1.prems" eq have "parseQuoted trim (tl line) rest [] flds = Inr (dst, rest')"
      by simp
    from "1.IH"(2)[OF line_def quoted this] show ?thesis .
  qed
next
  case (2 trim line rest buf flds)
  define pre where "pre = takeWhile (\<lambda>c. c \<noteq> CHR 0x22) line"
  define line' where "line' = drop (length pre + 1) line"
  have eq: "parseQuoted trim line rest buf flds =
     (if CHR 0x22 \<in> set line then
        (if line' \<noteq> [] \<and> hd line' = CHR 0x22
           then parseQuoted trim (tl line') rest (buf @ pre @ [CHR 0x22]) flds
         else if line' \<noteq> [] \<and> hd line' = CHR '',''
           then parseField trim (tl line') rest (flds @ [buf @ pre])
         else if lengthNL line' = length line'
           then Inr (flds @ [buf @ pre], rest)
         else Inl ErrQuote)
      else if line \<noteq> [] then
        (case readLine rest of
           None \<Rightarrow> Inl ErrQuote
         | Some (line', rest') \<Rightarrow> parseQuoted trim line' rest' (buf @ line) flds)
      else Inl ErrQuote)"
    unfolding pre_def line'_def
    by (subst parseQuoted.simps) (simp only: Let_def)
  show ?case
  proof (cases "CHR 0x22 \<in> set line")
    case quote: True
    show ?thesis
    proof (cases "line' \<noteq> [] \<and> hd line' = CHR 0x22")
      case dq: True
      with "2.prems" eq quote
      have "parseQuoted trim (tl line') rest (buf @ pre @ [CHR 0x22]) flds = Inr (dst, rest')"
        by simp
      from "2.IH"(1)[OF quote pre_def line'_def dq this] show ?thesis .
    next
      case ndq: False
      show ?thesis
      proof (cases "line' \<noteq> [] \<and> hd line' = CHR '',''")
        case cm: True
        with "2.prems" eq quote ndq
        have "parseField trim (tl line') rest (flds @ [buf @ pre]) = Inr (dst, rest')"
          by simp
        from "2.IH"(2)[OF quote pre_def line'_def ndq cm this] show ?thesis
          by simp
      next
        case False
        with "2.prems" eq quote ndq show ?thesis
          by (auto split: if_splits)
      qed
    qed
  next
    case noquote: False
    show ?thesis
    proof (cases "line \<noteq> []")
      case ne: True
      with "2.prems" eq noquote obtain l r where
        rl: "readLine rest = Some (l, r)"
        and rec: "parseQuoted trim l r (buf @ line) flds = Inr (dst, rest')"
        by (auto split: option.splits)
      from "2.IH"(3)[OF noquote ne rl refl rec] readLine_length(1)[OF rl] show ?thesis
        by simp
    next
      case False
      with "2.prems" eq noquote show ?thesis by simp
    qed
  qed
qed

text \<open>The loop at the start of \<open>readRecord\<close>: the next line that is not empty.\<close>

function nextLine :: "string \<Rightarrow> (string \<times> string) option" where
  "nextLine inp =
     (case readLine inp of
        None \<Rightarrow> None
      | Some (line, rest) \<Rightarrow>
          if length line = lengthNL line then nextLine rest else Some (line, rest))"
  by pat_completeness auto
termination
proof (relation "measure length")
  show "wf (measure length)" by simp
next
  fix inp x2 and x y :: string
  assume "readLine inp = Some x2" "(x, y) = x2"
  then show "(y, inp) \<in> measure length"
    using readLine_length(2)[of inp x y] by simp
qed

declare nextLine.simps [simp del]

text \<open>
  \<open>readRecord\<close>: one record and the reader after it, \<open>EOF\<close> at the end of the input, or a parse
  error. It ends with the check of the number of fields against \<open>FieldsPerRecord\<close>. After an
  error \<open>ReadAll\<close> does not use the reader again, so no reader is returned with an error.
\<close>

definition readRecord :: "Reader \<Rightarrow> error + (string list \<times> Reader)" where
  "readRecord r =
     (case nextLine (input r) of
        None \<Rightarrow> Inl EOF
      | Some (line, rest) \<Rightarrow>
          (case parseField (TrimLeadingSpace r) line rest [] of
             Inl e \<Rightarrow> Inl (ParseError e)
           | Inr (dst, rest') \<Rightarrow>
               if FieldsPerRecord r > 0 then
                 (if int (length dst) \<noteq> FieldsPerRecord r then Inl (ParseError ErrFieldCount)
                  else Inr (dst, r\<lparr>input := rest'\<rparr>))
               else if FieldsPerRecord r = 0 then
                 Inr (dst, r\<lparr>FieldsPerRecord := int (length dst), input := rest'\<rparr>)
               else Inr (dst, r\<lparr>input := rest'\<rparr>)))"

lemma nextLine_length:
  "nextLine inp = Some (line, rest) \<Longrightarrow> length rest < length inp"
proof (induction inp rule: nextLine.induct)
  case (1 inp)
  from "1.prems" obtain l r where rl: "readLine inp = Some (l, r)"
    by (subst (asm) nextLine.simps) (auto split: option.splits)
  show ?case
  proof (cases "length l = lengthNL l")
    case True
    with "1.prems" rl have "nextLine r = Some (line, rest)"
      by (subst (asm) nextLine.simps) simp
    from "1.IH"[OF rl refl True this] readLine_length(2)[OF rl] show ?thesis
      by simp
  next
    case False
    with "1.prems" rl have "r = rest"
      by (subst (asm) nextLine.simps) simp
    with readLine_length(2)[OF rl] show ?thesis by simp
  qed
qed

lemma readRecord_length:
  assumes "readRecord r = Inr (dst, r')"
  shows "length (input r') < length (input r)"
proof -
  from assms obtain line rest where nl: "nextLine (input r) = Some (line, rest)"
    by (auto simp: readRecord_def split: option.splits)
  with assms obtain rest' where
    pf: "parseField (TrimLeadingSpace r) line rest [] = Inr (dst, rest')"
    and r': "input r' = rest'"
    by (auto simp: readRecord_def split: sum.splits if_splits)
  from parse_result(1)[OF pf] nextLine_length[OF nl] r' show ?thesis
    by simp
qed

text \<open>\<open>ReadAll\<close>: the records up to the end of the input, or the first error.\<close>

function ReadAll_loop :: "Reader \<Rightarrow> string list list \<Rightarrow> error + string list list" where
  "ReadAll_loop r records =
     (case readRecord r of
        Inl err \<Rightarrow> if err = EOF then Inr records else Inl err
      | Inr (rec, r') \<Rightarrow> ReadAll_loop r' (records @ [rec]))"
  by pat_completeness auto
termination
proof (relation "measure (\<lambda>(r, records). length (input r))")
  show "wf (measure (\<lambda>(r, records). length (input r)))" by simp
next
  fix r :: Reader and records :: "string list list" and b and x :: "string list" and y :: Reader
  assume "readRecord r = Inr b" "(x, y) = b"
  then show "((y, records @ [x]), (r, records)) \<in> measure (\<lambda>(r, records). length (input r))"
    using readRecord_length[of r x y] by simp
qed

declare ReadAll_loop.simps [simp del]

definition ReadAll :: "Reader \<Rightarrow> error + string list list" where
  "ReadAll r = ReadAll_loop r []"

section \<open>\<open>CsvToSlice\<close>\<close>

text \<open>
  The table is a Go map from column name to the column's values. A Go map has no order of
  its keys, so it is a partial function here. \<open>appendRow\<close> is the inner loop over the fields
  of a row (\<open>i\<close> counts them), \<open>appendRows\<close> the loop over \<open>records[1:]\<close>. Indexing \<open>headers\<close>
  past its end panics.
\<close>

type_synonym table = "string \<rightharpoonup> string list"

fun appendRow :: "string list \<Rightarrow> nat \<Rightarrow> string list \<Rightarrow> table \<Rightarrow> error + table" where
  "appendRow headers i [] result = Inr result"
| "appendRow headers i (v # row) result =
     (if i < length headers
      then appendRow headers (Suc i) row
             (result(headers ! i \<mapsto>
                (case result (headers ! i) of None \<Rightarrow> [] | Some vs \<Rightarrow> vs) @ [v]))
      else Inl IndexOutOfRange)"

fun appendRows :: "string list \<Rightarrow> string list list \<Rightarrow> table \<Rightarrow> error + table" where
  "appendRows headers [] result = Inr result"
| "appendRows headers (row # rows) result =
     (case appendRow headers 0 row result of
        Inl err \<Rightarrow> Inl err
      | Inr result' \<Rightarrow> appendRows headers rows result')"

definition CsvToSlice :: "string \<Rightarrow> error + table" where
  "CsvToSlice data =
     (let r = (NewReader data)\<lparr>TrimLeadingSpace := True\<rparr> in
      case ReadAll r of
        Inl err \<Rightarrow> Inl err
      | Inr records \<Rightarrow>
          if length records < 2
          then Inl (ErrorString ''CSV file must contain at least one row of data'')
          else
            let headers = records ! 0;
                result = fold (\<lambda>header result. result(header \<mapsto> [])) headers Map.empty
            in appendRows headers (drop 1 records) result)"

text \<open>
  Two ways to write the fields of a row that stand under the column name \<open>h\<close>: \<open>column\<close>
  takes them by position, \<open>colv\<close> by pairing header and row.
\<close>

definition colv :: "string \<Rightarrow> string list \<Rightarrow> string list \<Rightarrow> string list" where
  "colv h headers row = map snd (filter (\<lambda>kv. fst kv = h) (zip headers row))"

definition column :: "string list \<Rightarrow> string \<Rightarrow> string list \<Rightarrow> string list" where
  "column headers h row = map (\<lambda>i. row ! i) (filter (\<lambda>i. headers ! i = h) [0..<length headers])"

text \<open>
  The part of \<open>readRecord\<close> before the check of the number of fields, named for the
  proofs: it does not depend on \<open>FieldsPerRecord\<close>.
\<close>

definition readFields :: "Reader \<Rightarrow> error + (string list \<times> string)" where
  "readFields r =
     (case nextLine (input r) of
        None \<Rightarrow> Inl EOF
      | Some (line, rest) \<Rightarrow>
          (case parseField (TrimLeadingSpace r) line rest [] of
             Inl e \<Rightarrow> Inl (ParseError e)
           | Inr (dst, rest') \<Rightarrow> Inr (dst, rest')))"

section \<open>\<open>ConnectAIModel\<close>\<close>

text \<open>
  The payload \<open>Inputs\<close> and the answer \<open>Response\<close> of the program. A nil slice and an empty
  slice are both the empty list, so \<open>zeroResponse\<close> is the zero value \<open>Response{}\<close>.
\<close>

record Inputs =
  Table :: table
  Query :: string

record Response =
  Answer :: string
  Coordinates :: "int list list"
  Cells :: "string list"
  Aggregator :: string

definition zeroResponse :: Response where
  "zeroResponse = \<lparr>Answer = [], Coordinates = [], Cells = [], Aggregator = []\<rparr>"

text \<open>
  An \<open>http.Request\<close> as far as the program sets it, and an \<open>http.Response\<close> as far as the
  program reads it: \<open>RespBody\<close> is what \<open>ioutil.ReadAll(resp.Body)\<close> returns.
\<close>

record Request =
  Method :: string
  URL :: string
  Header :: "string \<rightharpoonup> string list"
  Body :: string

record HttpResponse =
  StatusCode :: int
  Status :: string
  RespBody :: "error + string"

text \<open>
  What the program calls outside its own code is a parameter. \<open>Marshal\<close> is \<open>json.Marshal\<close>
  on the payload (of any type \<open>'p\<close>, as the parameter is an \<open>interface{}\<close>). \<open>Decode\<close> is
  \<open>json.NewDecoder(...).Decode(&response)\<close> on a zero \<open>Response\<close>: the value \<open>response\<close> holds
  afterwards, which the decoder may have filled in part, and the error or nil. \<open>Client\<close> is
  \<open>c.Client.Do\<close>: the answer of the network to a request.
\<close>

record 'p json =
  Marshal :: "'p \<Rightarrow> error + string"
  Decode :: "string \<Rightarrow> Response \<times> error option"

record AIModelConnector =
  Client :: "Request \<Rightarrow> error + HttpResponse"

text \<open>
  \<open>http.NewRequest\<close> refuses a method that is not a token and a URL that \<open>url.Parse\<close>
  rejects. \<open>ConnectAIModel\<close> calls it with two constants that pass both checks, so the model
  builds the request; the branch of \<open>ConnectAIModel\<close> for its error is kept as written.
  \<open>HeaderSet\<close> is \<open>req.Header.Set\<close> for a key already in canonical form.
\<close>

definition NewRequest :: "string \<Rightarrow> string \<Rightarrow> string \<Rightarrow> error + Request" where
  "NewRequest m u b = Inr \<lparr>Method = m, URL = u, Header = Map.empty, Body = b\<rparr>"

definition HeaderSet :: "Request \<Rightarrow> string \<Rightarrow> string \<Rightarrow> Request" where
  "HeaderSet req k v = req\<lparr>Header := (Header req)(k \<mapsto> [v])\<rparr>"

text \<open>The verb \<open>%d\<close> of \<open>fmt\<close> on an \<open>int\<close>: decimal digits, with a minus sign when negative.\<close>

fun digits :: "nat \<Rightarrow> string" where
  "digits n = (if n < 10 then [char_of (48 + n)]
               else digits (n div 10) @ [char_of (48 + n mod 10)])"

declare digits.simps [simp del]

definition itoa :: "int \<Rightarrow> string" where
  "itoa i = (if i < 0 then CHR ''-'' # digits (nat (- i)) else digits (nat i))"

definition url :: string where
  "url = ''https://api-inference.huggingface.co/models/google/tapas-base-finetuned-wtq''"

text \<open>
  \<open>ConnectAIModel\<close> returns the pair \<open>(Response, error)\<close> of the Go function, \<open>None\<close> for a nil
  error, and the list of the requests it handed to \<open>c.Client.Do\<close>.
\<close>

definition ConnectAIModel ::
  "'p json \<Rightarrow> AIModelConnector \<Rightarrow> 'p \<Rightarrow> string \<Rightarrow> (Response \<times> error option) \<times> Request list" where
  "ConnectAIModel js c payload token =
     (case Marshal js payload of
        Inl err \<Rightarrow> ((zeroResponse, Some err), [])
      | Inr payloadBytes \<Rightarrow>
          (case NewRequest ''POST'' url payloadBytes of
             Inl err \<Rightarrow> ((zeroResponse, Some err), [])
           | Inr req0 \<Rightarrow>
               let req1 = HeaderSet req0 ''Authorization'' (''Bearer '' @ token);
                   req = HeaderSet req1 ''Content-Type'' ''application/json''
               in (case Client c req of
                     Inl err \<Rightarrow> ((zeroResponse, Some err), [req])
                   | Inr resp \<Rightarrow>
                       if StatusCode resp \<noteq> 200
                       then ((zeroResponse,
                              Some (ErrorString (''failed to get valid response: ''
                                      @ itoa (StatusCode resp) @ '' '' @ Status resp))),
                             [req])
                       else
                         (case RespBody resp of
                            Inl err \<Rightarrow> ((zeroResponse, Some err), [req])
                          | Inr respBody \<Rightarrow>
                              (case Decode js respBody of
                                 (response, Some err) \<Rightarrow> ((zeroResponse, Some err), [req])
                               | (response, None) \<Rightarrow> ((response, None), [req]))))))"

section \<open>The handler of \<open>POST /ask\<close>\<close>


datatype body = H_error string | H_errorf string error | JSON_Response Response




text \<open>The request \<open>ConnectAIModel\<close> builds from the bytes of the payload and the token.\<close>

definition request :: "string \<Rightarrow> string \<Rightarrow> Request" where
  "request payloadBytes token =
     \<lparr>Method = ''POST'', URL = url,
      Header = [''Authorization'' \<mapsto> [''Bearer '' @ token],
                ''Content-Type'' \<mapsto> [''application/json'']],
      Body = payloadBytes\<rparr>"

section \<open>Example values\<close>

text \<open>
  Values for the closed instances of the theorems below: the table of the two-row example
  with a query, its serialisation, three response bodies with what \<open>encoding/json\<close> decodes
  them to (a body of the expected shape, one whose \<open>coordinates\<close> and \<open>cells\<close> differ in
  length, and one whose \<open>cells\<close> is a number, which leaves \<open>answer\<close> filled in and returns an
  error), a connector whose network answers every request with a given status and body,
  and two environments of the handler with no token: in \<open>example_env\<close> the request body
  binds, in \<open>env_unbound\<close> it does not.
\<close>

definition example_payload :: Inputs where
  "example_payload =
     \<lparr>Table = [''Name'' \<mapsto> [''Alice'', ''Bob''], ''Age'' \<mapsto> [''30'', ''25'']],
      Query = ''What is the age of Alice?''\<rparr>"

definition example_bytes :: string where
  \<open>example_bytes =
     ''{"table":{"Age":["30","25"],"Name":["Alice","Bob"]},"query":"What is the age of Alice?"}''\<close>

definition body_ok :: string where
  \<open>body_ok = ''{"answer":"30","coordinates":[[0,1]],"cells":["30"],"aggregator":"NONE"}''\<close>

definition body_uneven :: string where
  \<open>body_uneven = ''{"answer":"x","coordinates":[[0,1]],"cells":["a","b"],"aggregator":"NONE"}''\<close>

definition body_partial :: string where
  \<open>body_partial = ''{"answer":"30","cells":5}''\<close>

definition example_json :: "Inputs json" where
  "example_json =
     \<lparr>Marshal = (\<lambda>p. Inr example_bytes),
      Decode = (\<lambda>b.
        if b = body_ok then
          (\<lparr>Answer = ''30'', Coordinates = [[0, 1]], Cells = [''30''], Aggregator = ''NONE''\<rparr>, None)
        else if b = body_uneven then
          (\<lparr>Answer = ''x'', Coordinates = [[0, 1]], Cells = [''a'', ''b''], Aggregator = ''NONE''\<rparr>,
           None)
        else if b = body_partial then
          (\<lparr>Answer = ''30'', Coordinates = [], Cells = [], Aggregator = []\<rparr>,
           Some (ExternalError
             ''json: cannot unmarshal number into Go struct field Response.cells of type []string''))
        else (zeroResponse, Some (ExternalError ''json: invalid body'')))\<rparr>"

definition example_client :: "int \<Rightarrow> string \<Rightarrow> string \<Rightarrow> AIModelConnector" where
  "example_client code status b =
     \<lparr>Client = (\<lambda>req. Inr \<lparr>StatusCode = code, Status = status, RespBody = Inr b\<rparr>)\<rparr>"



section \<open>Properties of the reader\<close>

lemma readRecord_checked:
  assumes "readRecord r = Inr (dst, r')" "0 < FieldsPerRecord r"
  shows "int (length dst) = FieldsPerRecord r" "FieldsPerRecord r' = FieldsPerRecord r"
    "TrimLeadingSpace r' = TrimLeadingSpace r"
  using assms
  by (auto simp: readRecord_def split: option.splits sum.splits if_splits)

lemma readRecord_first:
  assumes "readRecord r = Inr (dst, r')" "FieldsPerRecord r = 0"
  shows "FieldsPerRecord r' = int (length dst)" "0 < length dst"
proof -
  from assms obtain line rest rest' where
    pf: "parseField (TrimLeadingSpace r) line rest [] = Inr (dst, rest')"
    by (auto simp: readRecord_def split: option.splits sum.splits if_splits)
  from parse_result(1)[OF pf] show "0 < length dst" by simp
  from assms show "FieldsPerRecord r' = int (length dst)"
    by (auto simp: readRecord_def split: option.splits sum.splits if_splits)
qed

lemma ReadAll_loop_prefix:
  "ReadAll_loop r acc = Inr records \<Longrightarrow> \<exists>new. records = acc @ new"
proof (induction r acc arbitrary: records rule: ReadAll_loop.induct)
  case (1 r acc)
  show ?case
  proof (cases "readRecord r")
    case (Inl err)
    with "1.prems" show ?thesis
      by (subst (asm) ReadAll_loop.simps) (simp split: if_splits)
  next
    case (Inr p)
    obtain rec r' where p: "p = (rec, r')" by (cases p)
    with "1.prems" Inr have "ReadAll_loop r' (acc @ [rec]) = Inr records"
      by (subst (asm) ReadAll_loop.simps) simp
    from "1.IH"[OF Inr p[symmetric] this] show ?thesis by auto
  qed
qed

lemma ReadAll_loop_checked:
  "ReadAll_loop r acc = Inr records \<Longrightarrow> 0 < FieldsPerRecord r \<Longrightarrow>
     \<exists>new. records = acc @ new \<and> (\<forall>rec\<in>set new. int (length rec) = FieldsPerRecord r)"
proof (induction r acc arbitrary: records rule: ReadAll_loop.induct)
  case (1 r acc)
  show ?case
  proof (cases "readRecord r")
    case (Inl err)
    with "1.prems" show ?thesis
      by (subst (asm) ReadAll_loop.simps) (simp split: if_splits)
  next
    case (Inr p)
    obtain rec r' where p: "p = (rec, r')" by (cases p)
    with "1.prems" Inr have loop: "ReadAll_loop r' (acc @ [rec]) = Inr records"
      by (subst (asm) ReadAll_loop.simps) simp
    from Inr p have rr: "readRecord r = Inr (rec, r')" by simp
    note chk = readRecord_checked[OF rr "1.prems"(2)]
    from "1.IH"[OF Inr p[symmetric] loop] chk "1.prems"(2)
    obtain new where "records = (acc @ [rec]) @ new"
      "\<forall>rec\<in>set new. int (length rec) = FieldsPerRecord r"
      by auto
    with chk(1) show ?thesis by auto
  qed
qed

lemma ReadAll_uniform:
  assumes "ReadAll r = Inr (headers # rows)" "FieldsPerRecord r = 0"
  shows "\<forall>row\<in>set rows. length row = length headers"
proof (cases "readRecord r")
  case (Inl err)
  with assms(1) show ?thesis
    unfolding ReadAll_def by (subst (asm) ReadAll_loop.simps) (simp split: if_splits)
next
  case (Inr p)
  obtain rec r' where p: "p = (rec, r')" by (cases p)
  with assms(1) Inr have loop: "ReadAll_loop r' [rec] = Inr (headers # rows)"
    unfolding ReadAll_def by (subst (asm) ReadAll_loop.simps) simp
  from Inr p have rr: "readRecord r = Inr (rec, r')" by simp
  note fst = readRecord_first[OF rr assms(2)]
  from ReadAll_loop_checked[OF loop] fst
  obtain new where "headers # rows = [rec] @ new"
    "\<forall>x\<in>set new. int (length x) = int (length rec)"
    by auto
  then show ?thesis by auto
qed

lemma readRecord_readFields:
  "readRecord r =
     (case readFields r of
        Inl e \<Rightarrow> Inl e
      | Inr (dst, rest') \<Rightarrow>
          if FieldsPerRecord r > 0 then
            (if int (length dst) \<noteq> FieldsPerRecord r then Inl (ParseError ErrFieldCount)
             else Inr (dst, r\<lparr>input := rest'\<rparr>))
          else if FieldsPerRecord r = 0 then
            Inr (dst, r\<lparr>FieldsPerRecord := int (length dst), input := rest'\<rparr>)
          else Inr (dst, r\<lparr>input := rest'\<rparr>))"
  by (simp add: readRecord_def readFields_def split: option.splits sum.splits prod.splits)

lemma readFields_FieldsPerRecord [simp]:
  "readFields (r\<lparr>FieldsPerRecord := n\<rparr>) = readFields r"
  by (simp add: readFields_def split: option.splits)

lemma readRecord_recheck:
  assumes "FieldsPerRecord r < 0"
  shows "readRecord r = Inl e \<Longrightarrow> readRecord (r\<lparr>FieldsPerRecord := n\<rparr>) = Inl e"
    and "readRecord r = Inr (dst, r') \<Longrightarrow> 0 < n \<Longrightarrow>
         readRecord (r\<lparr>FieldsPerRecord := n\<rparr>) =
           (if int (length dst) = n then Inr (dst, r'\<lparr>FieldsPerRecord := n\<rparr>)
            else Inl (ParseError ErrFieldCount))"
    and "readRecord r = Inr (dst, r') \<Longrightarrow>
         readRecord (r\<lparr>FieldsPerRecord := 0\<rparr>) =
           Inr (dst, r'\<lparr>FieldsPerRecord := int (length dst)\<rparr>)"
    and "readRecord r = Inr (dst, r') \<Longrightarrow> FieldsPerRecord r' < 0"
proof -
  show "readRecord r = Inl e \<Longrightarrow> readRecord (r\<lparr>FieldsPerRecord := n\<rparr>) = Inl e"
    using assms by (cases "readFields r") (auto simp: readRecord_readFields)
  assume rr: "readRecord r = Inr (dst, r')"
  with assms obtain rest' where rf: "readFields r = Inr (dst, rest')"
    and r': "r' = r\<lparr>input := rest'\<rparr>"
    by (cases "readFields r") (auto simp: readRecord_readFields)
  show "FieldsPerRecord r' < 0"
    using assms r' by simp
  show "readRecord (r\<lparr>FieldsPerRecord := 0\<rparr>) =
           Inr (dst, r'\<lparr>FieldsPerRecord := int (length dst)\<rparr>)"
    using rf r' by (simp add: readRecord_readFields)
  show "readRecord (r\<lparr>FieldsPerRecord := n\<rparr>) =
           (if int (length dst) = n then Inr (dst, r'\<lparr>FieldsPerRecord := n\<rparr>)
            else Inl (ParseError ErrFieldCount))" if "0 < n"
    using that rf r' by (simp add: readRecord_readFields)
qed

lemma ReadAll_loop_recheck:
  "FieldsPerRecord r < 0 \<Longrightarrow> ReadAll_loop r acc = Inr records \<Longrightarrow> 0 < n \<Longrightarrow>
     ReadAll_loop (r\<lparr>FieldsPerRecord := n\<rparr>) acc =
       (if \<forall>rec\<in>set (drop (length acc) records). int (length rec) = n then Inr records
        else Inl (ParseError ErrFieldCount))"
proof (induction r acc arbitrary: records rule: ReadAll_loop.induct)
  case (1 r acc)
  show ?case
  proof (cases "readRecord r")
    case (Inl err)
    with "1.prems"(2) have e: "err = EOF" and rs: "records = acc"
      by (subst (asm) ReadAll_loop.simps; simp split: if_splits)+
    from readRecord_recheck(1)[OF "1.prems"(1) Inl, of n] e rs show ?thesis
      by (subst ReadAll_loop.simps) simp
  next
    case (Inr p)
    obtain rec r' where p: "p = (rec, r')" by (cases p)
    with "1.prems"(2) Inr have loop: "ReadAll_loop r' (acc @ [rec]) = Inr records"
      by (subst (asm) ReadAll_loop.simps) simp
    from Inr p have rr: "readRecord r = Inr (rec, r')" by simp
    from ReadAll_loop_prefix[OF loop] obtain new where new: "records = acc @ rec # new"
      by auto
    note neg = readRecord_recheck(4)[OF "1.prems"(1) rr]
    note ih = "1.IH"[OF Inr p[symmetric] neg loop "1.prems"(3)]
    show ?thesis
    proof (cases "int (length rec) = n")
      case True
      with readRecord_recheck(2)[OF "1.prems"(1) rr "1.prems"(3)]
      have "ReadAll_loop (r\<lparr>FieldsPerRecord := n\<rparr>) acc
            = ReadAll_loop (r'\<lparr>FieldsPerRecord := n\<rparr>) (acc @ [rec])"
        by (subst ReadAll_loop.simps) simp
      with ih True new show ?thesis by simp
    next
      case False
      with readRecord_recheck(2)[OF "1.prems"(1) rr "1.prems"(3)]
      have "ReadAll_loop (r\<lparr>FieldsPerRecord := n\<rparr>) acc = Inl (ParseError ErrFieldCount)"
        by (subst ReadAll_loop.simps) simp
      with False new show ?thesis by simp
    qed
  qed
qed

lemma ReadAll_recheck:
  assumes ra: "ReadAll (r\<lparr>FieldsPerRecord := -1\<rparr>) = Inr (headers # rows)"
  shows "ReadAll (r\<lparr>FieldsPerRecord := 0\<rparr>) =
           (if \<forall>row\<in>set rows. length row = length headers then Inr (headers # rows)
            else Inl (ParseError ErrFieldCount))"
proof -
  let ?u = "r\<lparr>FieldsPerRecord := -1\<rparr>"
  have neg: "FieldsPerRecord ?u < 0" by simp
  show ?thesis
  proof (cases "readRecord ?u")
    case (Inl err)
    with ra show ?thesis
      unfolding ReadAll_def by (subst (asm) ReadAll_loop.simps) (simp split: if_splits)
  next
    case (Inr p)
    obtain rec r' where p: "p = (rec, r')" by (cases p)
    with ra Inr have loop: "ReadAll_loop r' [rec] = Inr (headers # rows)"
      unfolding ReadAll_def by (subst (asm) ReadAll_loop.simps) simp
    from Inr p have rr: "readRecord ?u = Inr (rec, r')" by simp
    from ReadAll_loop_prefix[OF loop] have rec: "rec = headers" by auto
    have pos: "0 < int (length rec)"
      using readRecord_first(2)[OF readRecord_recheck(3)[OF neg rr]] by simp
    from readRecord_recheck(3)[OF neg rr]
    have "ReadAll (r\<lparr>FieldsPerRecord := 0\<rparr>)
          = ReadAll_loop (r'\<lparr>FieldsPerRecord := int (length rec)\<rparr>) [rec]"
      unfolding ReadAll_def by (subst ReadAll_loop.simps) simp
    also have "\<dots> = (if \<forall>x\<in>set (drop (length [rec]) (headers # rows)).
                          int (length x) = int (length rec)
                      then Inr (headers # rows) else Inl (ParseError ErrFieldCount))"
      by (rule ReadAll_loop_recheck[OF readRecord_recheck(4)[OF neg rr] loop pos])
    finally show ?thesis using rec by simp
  qed
qed

lemma readRecord_uncheck:
  shows "readRecord r = Inl EOF \<Longrightarrow> readRecord (r\<lparr>FieldsPerRecord := -1\<rparr>) = Inl EOF"
    and "readRecord r = Inr (dst, r') \<Longrightarrow>
         readRecord (r\<lparr>FieldsPerRecord := -1\<rparr>) = Inr (dst, r'\<lparr>FieldsPerRecord := -1\<rparr>)"
proof -
  show "readRecord r = Inl EOF \<Longrightarrow> readRecord (r\<lparr>FieldsPerRecord := -1\<rparr>) = Inl EOF"
    by (cases "readFields r") (auto simp: readRecord_readFields split: if_splits)
  assume rr: "readRecord r = Inr (dst, r')"
  then obtain rest' where rf: "readFields r = Inr (dst, rest')"
    and r': "r'\<lparr>FieldsPerRecord := -1\<rparr> = r\<lparr>FieldsPerRecord := -1, input := rest'\<rparr>"
    by (cases "readFields r") (auto simp: readRecord_readFields split: if_splits)
  show "readRecord (r\<lparr>FieldsPerRecord := -1\<rparr>) = Inr (dst, r'\<lparr>FieldsPerRecord := -1\<rparr>)"
    using rf r' by (simp add: readRecord_readFields)
qed

lemma ReadAll_loop_uncheck:
  "ReadAll_loop r acc = Inr records \<Longrightarrow>
     ReadAll_loop (r\<lparr>FieldsPerRecord := -1\<rparr>) acc = Inr records"
proof (induction r acc rule: ReadAll_loop.induct)
  case (1 r acc)
  show ?case
  proof (cases "readRecord r")
    case (Inl err)
    with "1.prems" have e: "err = EOF" and rs: "records = acc"
      by (subst (asm) ReadAll_loop.simps; simp split: if_splits)+
    from readRecord_uncheck(1)[of r] Inl e rs show ?thesis
      by (subst ReadAll_loop.simps) simp
  next
    case (Inr p)
    obtain rec r' where p: "p = (rec, r')" by (cases p)
    with "1.prems" Inr have loop: "ReadAll_loop r' (acc @ [rec]) = Inr records"
      by (subst (asm) ReadAll_loop.simps) simp
    from Inr p have rr: "readRecord r = Inr (rec, r')" by simp
    from readRecord_uncheck(2)[OF rr] "1.IH"[OF Inr p[symmetric] loop] show ?thesis
      by (subst ReadAll_loop.simps) simp
  qed
qed

lemma readRecord_error:
  "readRecord r = Inl err \<Longrightarrow> err = EOF \<or> (\<exists>k. err = ParseError k)"
  by (cases "readFields r") (auto simp: readRecord_readFields readFields_def
        split: option.splits sum.splits if_splits)

lemma ReadAll_loop_error:
  "ReadAll_loop r acc = Inl err \<Longrightarrow> \<exists>k. err = ParseError k"
proof (induction r acc rule: ReadAll_loop.induct)
  case (1 r acc)
  show ?case
  proof (cases "readRecord r")
    case (Inl e)
    with "1.prems" readRecord_error[OF Inl] show ?thesis
      by (subst (asm) ReadAll_loop.simps) (auto split: if_splits)
  next
    case (Inr p)
    obtain rec r' where p: "p = (rec, r')" by (cases p)
    with "1.prems" Inr have "ReadAll_loop r' (acc @ [rec]) = Inl err"
      by (subst (asm) ReadAll_loop.simps) simp
    from "1.IH"[OF Inr p[symmetric] this] show ?thesis .
  qed
qed

section \<open>Properties of the table construction\<close>

lemma colv_Nil [simp]: "colv h [] row = []" "colv h headers [] = []"
  by (simp_all add: colv_def)

lemma colv_Cons [simp]:
  "colv h (k # headers) (v # row) = (if k = h then v # colv h headers row else colv h headers row)"
  by (simp add: colv_def)

lemma colv_empty_iff:
  "length row = length headers \<Longrightarrow> colv h headers row = [] \<longleftrightarrow> h \<notin> set headers"
  by (induction headers row rule: list_induct2') auto

lemma colv_length:
  "length row = length headers \<Longrightarrow> length (colv h headers row) = count_list headers h"
  by (induction headers row rule: list_induct2') auto

lemma colv_column:
  assumes "length row = length headers"
  shows "colv h headers row = column headers h row"
proof -
  have z: "zip headers row = map (\<lambda>i. (headers ! i, row ! i)) [0..<length headers]"
    using assms by (intro nth_equalityI) simp_all
  show ?thesis
    unfolding colv_def column_def z by (simp add: filter_map comp_def)
qed

lemma filter_upt_eq: "i < n \<Longrightarrow> filter (\<lambda>j. j = i) [0..<n] = [i]"
proof (induction n)
  case 0
  then show ?case by simp
next
  case (Suc n)
  show ?case
  proof (cases "i = n")
    case True
    then have "filter (\<lambda>j. j = i) [0..<n] = []"
      by (simp add: filter_empty_conv)
    with True show ?thesis by simp
  next
    case False
    with Suc have "filter (\<lambda>j. j = i) [0..<n] = [i]" by simp
    with False show ?thesis by simp
  qed
qed

lemma column_distinct:
  assumes "distinct headers" "i < length headers"
  shows "column headers (headers ! i) row = [row ! i]"
proof -
  have "filter (\<lambda>j. headers ! j = headers ! i) [0..<length headers]
        = filter (\<lambda>j. j = i) [0..<length headers]"
    using assms by (intro filter_cong) (auto simp: nth_eq_iff_index_eq)
  also have "\<dots> = [i]"
    using assms(2) by (rule filter_upt_eq)
  finally show ?thesis by (simp add: column_def)
qed

lemma init_result:
  "fold (\<lambda>header result. result(header \<mapsto> [])) headers (m::table)
     = (\<lambda>h. if h \<in> set headers then Some [] else m h)"
  by (induction headers arbitrary: m) (auto simp: fun_eq_iff)

lemma appendRow_ok:
  "i + length row \<le> length headers \<Longrightarrow>
     \<exists>t. appendRow headers i row result = Inr t \<and>
         (\<forall>h. t h = (if colv h (drop i headers) row = [] then result h
                     else Some ((case result h of None \<Rightarrow> [] | Some vs \<Rightarrow> vs)
                                @ colv h (drop i headers) row)))"
proof (induction row arbitrary: i result)
  case Nil
  then show ?case by simp
next
  case (Cons v row)
  then have i: "i < length headers" and le: "Suc i + length row \<le> length headers"
    by simp_all
  let ?r1 = "result(headers ! i \<mapsto>
                (case result (headers ! i) of None \<Rightarrow> [] | Some vs \<Rightarrow> vs) @ [v])"
  from Cons.IH[OF le, of ?r1] obtain t where
    t: "appendRow headers (Suc i) row ?r1 = Inr t"
    and th: "\<And>h. t h = (if colv h (drop (Suc i) headers) row = [] then ?r1 h
                     else Some ((case ?r1 h of None \<Rightarrow> [] | Some vs \<Rightarrow> vs)
                                @ colv h (drop (Suc i) headers) row))"
    by blast
  have d: "drop i headers = headers ! i # drop (Suc i) headers"
    using i by (simp add: Cons_nth_drop_Suc)
  from t i have "appendRow headers i (v # row) result = Inr t" by simp
  moreover have "\<forall>h. t h = (if colv h (drop i headers) (v # row) = [] then result h
                     else Some ((case result h of None \<Rightarrow> [] | Some vs \<Rightarrow> vs)
                                @ colv h (drop i headers) (v # row)))"
    unfolding d by (auto simp: th)
  ultimately show ?case by blast
qed

lemma appendRows_ok:
  "\<forall>row\<in>set rows. length row = length headers \<Longrightarrow>
     \<exists>t. appendRows headers rows result = Inr t \<and>
         (\<forall>h. t h = (if h \<in> set headers \<and> rows \<noteq> []
                     then Some ((case result h of None \<Rightarrow> [] | Some vs \<Rightarrow> vs)
                                @ concat (map (colv h headers) rows))
                     else result h))"
proof (induction rows arbitrary: result)
  case Nil
  then show ?case by simp
next
  case (Cons row rows)
  then have len: "length row = length headers"
    and rest: "\<forall>row\<in>set rows. length row = length headers"
    by simp_all
  from appendRow_ok[of 0 row headers result] len obtain t1 where
    t1: "appendRow headers 0 row result = Inr t1"
    and t1h: "\<And>h. t1 h = (if colv h headers row = [] then result h
                     else Some ((case result h of None \<Rightarrow> [] | Some vs \<Rightarrow> vs)
                                @ colv h headers row))"
    by auto
  from Cons.IH[OF rest, of t1] obtain t where
    t: "appendRows headers rows t1 = Inr t"
    and th: "\<And>h. t h = (if h \<in> set headers \<and> rows \<noteq> []
                     then Some ((case t1 h of None \<Rightarrow> [] | Some vs \<Rightarrow> vs)
                                @ concat (map (colv h headers) rows))
                     else t1 h)"
    by blast
  from t t1 have "appendRows headers (row # rows) result = Inr t" by simp
  moreover have "\<forall>h. t h = (if h \<in> set headers \<and> row # rows \<noteq> []
                     then Some ((case result h of None \<Rightarrow> [] | Some vs \<Rightarrow> vs)
                                @ concat (map (colv h headers) (row # rows)))
                     else result h)"
    using colv_empty_iff[OF len] by (auto simp: th t1h)
  ultimately show ?case by blast
qed

lemma concat_column_distinct:
  assumes "distinct headers" "i < length headers"
  shows "concat (map (column headers (headers ! i)) rows) = map (\<lambda>row. row ! i) rows"
  using assms by (induction rows) (simp_all add: column_distinct)

text \<open>
  The two loops of \<open>CsvToSlice\<close> do not themselves compare a row with the header row: on a
  row that is too short they would leave the columns unequal, and on one that is too long
  they would panic. \<open>ReadAll\<close> returns no such records (lemma \<open>ReadAll_uniform\<close>).
\<close>

lemma appendRows_short_row:
  "\<exists>t. appendRows [''a'', ''b''] [[''1'']] [''a'' \<mapsto> [], ''b'' \<mapsto> []] = Inr t
       \<and> t ''a'' = Some [''1''] \<and> t ''b'' = Some []"
  by simp

lemma appendRows_long_row:
  "appendRows [''a''] [[''1'', ''2'']] [''a'' \<mapsto> []] = Inl IndexOutOfRange"
  by simp



section \<open>The claims about \<open>CsvToSlice\<close>\<close>

text \<open>
  In the theorems below, the records of an input are what \<open>ReadAll\<close> returns for the
  reader \<open>CsvToSlice\<close> builds: \<open>(NewReader data)\<lparr>TrimLeadingSpace := True\<rparr>\<close>.
  \<open>CsvToSlice_table\<close> gives the table for an input with a header row and at least one data
  row; \<open>CsvToSlice_cases\<close> lists the three ways \<open>CsvToSlice\<close> returns, none of them the panic
  of an index out of range.
\<close>

lemma CsvToSlice_table:
  assumes ra: "ReadAll ((NewReader data)\<lparr>TrimLeadingSpace := True\<rparr>) = Inr (headers # rows)"
    and ne: "rows \<noteq> []"
  shows "\<exists>t. CsvToSlice data = Inr t \<and>
           (\<forall>h. t h = (if h \<in> set headers
                       then Some (concat (map (column headers h) rows)) else None))"
proof -
  have len: "\<forall>row\<in>set rows. length row = length headers"
    using ReadAll_uniform[OF ra] by (simp add: NewReader_def)
  from ne have two: "\<not> length (headers # rows) < 2"
    by (cases rows) simp_all
  let ?init = "fold (\<lambda>header result. result(header \<mapsto> [])) headers (Map.empty::table)"
  from appendRows_ok[OF len, of ?init] obtain t where
    t: "appendRows headers rows ?init = Inr t"
    and th: "\<And>h. t h = (if h \<in> set headers \<and> rows \<noteq> []
                     then Some ((case ?init h of None \<Rightarrow> [] | Some vs \<Rightarrow> vs)
                                @ concat (map (colv h headers) rows))
                     else ?init h)"
    by blast
  have cv: "\<And>h. map (colv h headers) rows = map (column headers h) rows"
    using len by (intro map_cong) (simp_all add: colv_column)
  have "CsvToSlice data = Inr t"
    using ra two t by (simp add: CsvToSlice_def Let_def)
  moreover have "\<forall>h. t h = (if h \<in> set headers
                       then Some (concat (map (column headers h) rows)) else None)"
    using ne by (simp add: th init_result cv)
  ultimately show ?thesis by blast
qed

lemma CsvToSlice_cases:
  "(\<exists>k. CsvToSlice data = Inl (ParseError k))
   \<or> CsvToSlice data = Inl (ErrorString ''CSV file must contain at least one row of data'')
   \<or> (\<exists>t. CsvToSlice data = Inr t)"
proof (cases "ReadAll ((NewReader data)\<lparr>TrimLeadingSpace := True\<rparr>)")
  case (Inl err)
  then obtain k where "err = ParseError k"
    unfolding ReadAll_def using ReadAll_loop_error by blast
  with Inl show ?thesis by (simp add: CsvToSlice_def Let_def)
next
  case (Inr records)
  show ?thesis
  proof (cases "length records < 2")
    case True
    with Inr show ?thesis by (simp add: CsvToSlice_def Let_def)
  next
    case False
    then obtain headers rows where "records = headers # rows" "rows \<noteq> []"
      by (cases records; cases "tl records") auto
    with Inr CsvToSlice_table[of data headers rows] show ?thesis by blast
  qed
qed

text \<open>
  Claim C1. The rows of an input, before any check of their lengths, are the records the
  reader returns with a negative \<open>FieldsPerRecord\<close> (no check is made then). If one of the
  data rows has fewer fields than the header row, \<open>CsvToSlice\<close> returns the parse error
  \<open>ErrFieldCount\<close> (wrong number of fields) and no table: the reader \<open>CsvToSlice\<close> builds
  keeps the default \<open>FieldsPerRecord = 0\<close>, so \<open>ReadAll\<close> itself rejects the row. And whenever
  \<open>CsvToSlice\<close> does return a table, the input reads without a check to a header row and
  data rows that all have the length of the header row.
\<close>

theorem CsvToSlice_short_row:
  "(ReadAll ((NewReader data)\<lparr>TrimLeadingSpace := True, FieldsPerRecord := -1\<rparr>)
      = Inr (headers # rows)
    \<and> row \<in> set rows \<and> length row < length headers
    \<longrightarrow> CsvToSlice data = Inl (ParseError ErrFieldCount))
   \<and> (CsvToSlice data = Inr t
    \<longrightarrow> (\<exists>hs rs. ReadAll ((NewReader data)\<lparr>TrimLeadingSpace := True, FieldsPerRecord := -1\<rparr>)
                    = Inr (hs # rs)
               \<and> (\<forall>r\<in>set rs. length r = length hs)))"
proof (intro conjI impI)
  let ?r = "(NewReader data)\<lparr>TrimLeadingSpace := True\<rparr>"
  have u: "?r\<lparr>FieldsPerRecord := -1\<rparr>
           = (NewReader data)\<lparr>TrimLeadingSpace := True, FieldsPerRecord := -1\<rparr>"
    by simp
  have z: "?r\<lparr>FieldsPerRecord := 0\<rparr> = ?r"
    by (simp add: NewReader_def)
  {
    assume a: "ReadAll ((NewReader data)\<lparr>TrimLeadingSpace := True, FieldsPerRecord := -1\<rparr>)
                 = Inr (headers # rows)
               \<and> row \<in> set rows \<and> length row < length headers"
    then have "\<not> (\<forall>row\<in>set rows. length row = length headers)"
      by (auto intro!: bexI[of _ row])
    with ReadAll_recheck[of ?r headers rows] a u z
    have "ReadAll ?r = Inl (ParseError ErrFieldCount)"
      by simp
    then show "CsvToSlice data = Inl (ParseError ErrFieldCount)"
      by (simp add: CsvToSlice_def Let_def)
  }
  {
    assume t: "CsvToSlice data = Inr t"
    then obtain records where ra: "ReadAll ?r = Inr records" and two: "\<not> length records < 2"
      by (auto simp: CsvToSlice_def Let_def split: sum.splits if_splits)
    from two obtain hs rs where rec: "records = hs # rs"
      by (cases records) auto
    from ra have "ReadAll (?r\<lparr>FieldsPerRecord := -1\<rparr>) = Inr records"
      unfolding ReadAll_def by (rule ReadAll_loop_uncheck)
    with u rec have
      "ReadAll ((NewReader data)\<lparr>TrimLeadingSpace := True, FieldsPerRecord := -1\<rparr>) = Inr (hs # rs)"
      by simp
    moreover from ReadAll_uniform[of ?r hs rs] ra rec
    have "\<forall>r\<in>set rs. length r = length hs"
      by (simp add: NewReader_def)
    ultimately show "\<exists>hs rs.
        ReadAll ((NewReader data)\<lparr>TrimLeadingSpace := True, FieldsPerRecord := -1\<rparr>) = Inr (hs # rs)
        \<and> (\<forall>r\<in>set rs. length r = length hs)"
      by blast
  }
qed

theorem CsvToSlice_short_row_witness:
  "CsvToSlice ''Name,Age\<newline>Alice\<newline>Bob,25\<newline>'' = Inl (ParseError ErrFieldCount)"
proof -
  have r: "ReadAll ((NewReader ''Name,Age\<newline>Alice\<newline>Bob,25\<newline>'')
                      \<lparr>TrimLeadingSpace := True, FieldsPerRecord := -1\<rparr>)
             = Inr ([''Name'', ''Age''] # [[''Alice''], [''Bob'', ''25'']])"
    by code_simp
  have m: "[''Alice''] \<in> set [[''Alice''], [''Bob'', ''25'']]" by simp
  have l: "length [''Alice''] < length [''Name'', ''Age'']" by simp
  from CsvToSlice_short_row[THEN conjunct1, rule_format, OF conjI[OF r conjI[OF m l]]]
  show ?thesis .
qed

text \<open>
  Claim C2, as the code has it. If the input parses to a header row and at least one data
  row, and the names of the header row are pairwise distinct, then \<open>CsvToSlice\<close> returns a
  table in which the column named by the \<open>i\<close>-th header field holds the \<open>i\<close>-th field of
  every data row, in the order of the rows; so every column has as many values as there are
  data rows.
\<close>

theorem CsvToSlice_distinct_header:
  assumes "ReadAll ((NewReader data)\<lparr>TrimLeadingSpace := True\<rparr>) = Inr (headers # rows)"
    and "rows \<noteq> []"
    and "distinct headers"
  shows "\<exists>t. CsvToSlice data = Inr t
           \<and> (\<forall>i<length headers. t (headers ! i) = Some (map (\<lambda>row. row ! i) rows))
           \<and> (\<forall>h vs. t h = Some vs \<longrightarrow> length vs = length rows)"
proof -
  from CsvToSlice_table[OF assms(1,2)] obtain t where
    t: "CsvToSlice data = Inr t"
    and th: "\<And>h. t h = (if h \<in> set headers
                       then Some (concat (map (column headers h) rows)) else None)"
    by auto
  have col: "\<And>i. i < length headers \<Longrightarrow>
      concat (map (column headers (headers ! i)) rows) = map (\<lambda>row. row ! i) rows"
    using assms(3) by (induction rows) (simp_all add: column_distinct)
  have a: "\<forall>i<length headers. t (headers ! i) = Some (map (\<lambda>row. row ! i) rows)"
    by (simp add: th col)
  have b: "\<forall>h vs. t h = Some vs \<longrightarrow> length vs = length rows"
  proof (intro allI impI)
    fix h vs assume s: "t h = Some vs"
    with th[of h] have "h \<in> set headers" by (auto split: if_splits)
    then obtain i where "i < length headers" "headers ! i = h"
      by (auto simp: in_set_conv_nth)
    with a s show "length vs = length rows" by auto
  qed
  from t a b show ?thesis by blast
qed

theorem CsvToSlice_distinct_header_witness:
  "\<exists>t. CsvToSlice ''Name,Age\<newline>Alice,30\<newline>Bob,25'' = Inr t
       \<and> t ''Name'' = Some [''Alice'', ''Bob''] \<and> t ''Age'' = Some [''30'', ''25'']"
proof -
  have r: "ReadAll ((NewReader ''Name,Age\<newline>Alice,30\<newline>Bob,25'')\<lparr>TrimLeadingSpace := True\<rparr>)
             = Inr ([''Name'', ''Age''] # [[''Alice'', ''30''], [''Bob'', ''25'']])"
    by code_simp
  have n: "[[''Alice'', ''30''], [''Bob'', ''25'']] \<noteq> []" by simp
  have d: "distinct [''Name'', ''Age'']" by simp
  from CsvToSlice_distinct_header[OF r n d] obtain t where
    t: "CsvToSlice ''Name,Age\<newline>Alice,30\<newline>Bob,25'' = Inr t"
    and c: "\<forall>i<length [''Name'', ''Age'']. t ([''Name'', ''Age''] ! i)
               = Some (map (\<lambda>row. row ! i) [[''Alice'', ''30''], [''Bob'', ''25'']])"
    by blast
  from c[rule_format, of 0] c[rule_format, of 1] t show ?thesis by simp
qed

text \<open>
  Claim C2 as stated, without the condition on the names, fails: the input with the header
  row \<open>a,a\<close> and the one data row \<open>1,2\<close> parses to two records, and \<open>CsvToSlice\<close> returns a
  table whose column \<open>a\<close> has two values for one data row.
\<close>

theorem equal_length_counterexample:
  "ReadAll ((NewReader ''a,a\<newline>1,2\<newline>'')\<lparr>TrimLeadingSpace := True\<rparr>)
     = Inr [[''a'', ''a''], [''1'', ''2'']]
   \<and> \<not> isl (CsvToSlice ''a,a\<newline>1,2\<newline>'')
   \<and> projr (CsvToSlice ''a,a\<newline>1,2\<newline>'') ''a'' = Some [''1'', ''2'']"
  by code_simp

text \<open>
  Claim C3, as the code has it. The table is a Go map, which has no order of its keys: the
  column names of the table \<open>CsvToSlice\<close> returns are, as a set, the names of the header
  row. And the order of the columns of the input is not kept: when the names of the header
  row are pairwise distinct, an input with the same columns in another order (\<open>p\<close> lists
  the positions of the old columns in the new order) gives the same table.
\<close>

theorem CsvToSlice_columns:
  assumes "ReadAll ((NewReader data)\<lparr>TrimLeadingSpace := True\<rparr>) = Inr (headers # rows)"
    and "rows \<noteq> []"
  shows "\<exists>t. CsvToSlice data = Inr t \<and> dom t = set headers
           \<and> (\<forall>data' p. distinct headers \<and> distinct p \<and> set p = {0..<length headers}
                 \<and> ReadAll ((NewReader data')\<lparr>TrimLeadingSpace := True\<rparr>)
                     = Inr (map (\<lambda>j. headers ! j) p # map (\<lambda>row. map (\<lambda>j. row ! j) p) rows)
               \<longrightarrow> CsvToSlice data' = Inr t)"
proof -
  from CsvToSlice_table[OF assms] obtain t where
    t: "CsvToSlice data = Inr t"
    and th: "\<And>h. t h = (if h \<in> set headers
                       then Some (concat (map (column headers h) rows)) else None)"
    by auto
  from th have d: "dom t = set headers"
    by (auto simp: dom_def)
  have perm: "CsvToSlice data' = Inr t"
    if dh: "distinct headers" and dp: "distinct p" and sp: "set p = {0..<length headers}"
      and ra: "ReadAll ((NewReader data')\<lparr>TrimLeadingSpace := True\<rparr>)
                 = Inr (map (\<lambda>j. headers ! j) p # map (\<lambda>row. map (\<lambda>j. row ! j) p) rows)"
    for data' p
  proof -
    let ?hs = "map (\<lambda>j. headers ! j) p"
    let ?rs = "map (\<lambda>row. map (\<lambda>j. row ! j) p) rows"
    from assms(2) have ne: "?rs \<noteq> []" by simp
    from CsvToSlice_table[OF ra ne] obtain t' where
      t': "CsvToSlice data' = Inr t'"
      and th': "\<And>h. t' h = (if h \<in> set ?hs
                       then Some (concat (map (column ?hs h) ?rs)) else None)"
      by auto
    have sets: "set ?hs = set headers"
    proof -
      have "set ?hs = (\<lambda>j. headers ! j) ` {0..<length headers}"
        using sp by simp
      also have "\<dots> = set headers"
        by (metis atLeast0LessThan nth_image take_all order_refl)
      finally show ?thesis .
    qed
    have dhs: "distinct ?hs"
      using dh dp sp by (auto simp: distinct_map inj_on_def nth_eq_iff_index_eq)
    have "t' h = t h" for h
    proof (cases "h \<in> set headers")
      case False
      with sets th th' show ?thesis by simp
    next
      case True
      then obtain i where i: "i < length headers" "headers ! i = h"
        by (auto simp: in_set_conv_nth)
      with sp have "i \<in> set p" by simp
      then obtain j where j: "j < length p" "p ! j = i"
        by (auto simp: in_set_conv_nth)
      from j i have hj: "?hs ! j = h" by simp
      from j have jl: "j < length ?hs" by simp
      have "concat (map (column ?hs h) ?rs) = map (\<lambda>row. row ! j) ?rs"
        using concat_column_distinct[OF dhs jl, of ?rs] hj by simp
      also have "\<dots> = map (\<lambda>row. row ! i) rows"
        using j by (simp add: comp_def)
      also have "\<dots> = concat (map (column headers h) rows)"
        using concat_column_distinct[OF dh i(1), of rows] i(2) by simp
      finally show ?thesis
        using True sets th th' by simp
    qed
    then have "t' = t" by (rule ext)
    with t' show ?thesis by simp
  qed
  from t d perm show ?thesis by blast
qed

theorem CsvToSlice_columns_witness:
  "\<exists>t. CsvToSlice ''a,b\<newline>1,2\<newline>'' = Inr t \<and> dom t = {''a'', ''b''}
       \<and> CsvToSlice ''b,a\<newline>2,1\<newline>'' = Inr t"
proof -
  have r: "ReadAll ((NewReader ''a,b\<newline>1,2\<newline>'')\<lparr>TrimLeadingSpace := True\<rparr>)
             = Inr ([''a'', ''b''] # [[''1'', ''2'']])"
    by code_simp
  have n: "[[''1'', ''2'']] \<noteq> []" by simp
  have r': "ReadAll ((NewReader ''b,a\<newline>2,1\<newline>'')\<lparr>TrimLeadingSpace := True\<rparr>)
             = Inr (map (\<lambda>j. [''a'', ''b''] ! j) [1, 0]
                    # map (\<lambda>row. map (\<lambda>j. row ! j) [1, 0]) [[''1'', ''2'']])"
    by code_simp
  have p: "distinct [''a'', ''b''] \<and> distinct [1::nat, 0]
           \<and> set [1::nat, 0] = {0..<length [''a'', ''b'']}"
    by auto
  from CsvToSlice_columns[OF r n] obtain t where
    t: "CsvToSlice ''a,b\<newline>1,2\<newline>'' = Inr t" and d: "dom t = set [''a'', ''b'']"
    and a: "\<forall>data' p. distinct [''a'', ''b''] \<and> distinct p \<and> set p = {0..<length [''a'', ''b'']}
                 \<and> ReadAll ((NewReader data')\<lparr>TrimLeadingSpace := True\<rparr>)
                     = Inr (map (\<lambda>j. [''a'', ''b''] ! j) p
                            # map (\<lambda>row. map (\<lambda>j. row ! j) p) [[''1'', ''2'']])
               \<longrightarrow> CsvToSlice data' = Inr t"
    by blast
  from a[rule_format, of "[1, 0]" "''b,a\<newline>2,1\<newline>''"] p r'
  have "CsvToSlice ''b,a\<newline>2,1\<newline>'' = Inr t" by blast
  with t d show ?thesis by auto
qed

text \<open>
  Claim C3 as stated fails: the inputs \<open>a,b / 1,2\<close> and \<open>b,a / 2,1\<close> have header rows in
  different orders, and \<open>CsvToSlice\<close> returns the same table for both. So no order read off
  the table can match the header row of both inputs: there is no function \<open>order\<close> of the
  table that gives the header row of every input.
\<close>

theorem column_order_counterexample:
  "ReadAll ((NewReader ''a,b\<newline>1,2\<newline>'')\<lparr>TrimLeadingSpace := True\<rparr>)
     = Inr [[''a'', ''b''], [''1'', ''2'']]
   \<and> ReadAll ((NewReader ''b,a\<newline>2,1\<newline>'')\<lparr>TrimLeadingSpace := True\<rparr>)
     = Inr [[''b'', ''a''], [''2'', ''1'']]
   \<and> CsvToSlice ''a,b\<newline>1,2\<newline>'' = CsvToSlice ''b,a\<newline>2,1\<newline>''
   \<and> \<not> (\<exists>order. \<forall>data headers rows t.
            ReadAll ((NewReader data)\<lparr>TrimLeadingSpace := True\<rparr>) = Inr (headers # rows)
            \<and> CsvToSlice data = Inr t \<longrightarrow> order t = headers)"
proof -
  have r1: "ReadAll ((NewReader ''a,b\<newline>1,2\<newline>'')\<lparr>TrimLeadingSpace := True\<rparr>)
     = Inr ([''a'', ''b''] # [[''1'', ''2'']])"
    by code_simp
  have r2: "ReadAll ((NewReader ''b,a\<newline>2,1\<newline>'')\<lparr>TrimLeadingSpace := True\<rparr>)
     = Inr ([''b'', ''a''] # [[''2'', ''1'']])"
    by code_simp
  from CsvToSlice_table[OF r1] obtain t1 where
    t1: "CsvToSlice ''a,b\<newline>1,2\<newline>'' = Inr t1"
    and h1: "\<And>h. t1 h = (if h \<in> set [''a'', ''b'']
                then Some (concat (map (column [''a'', ''b''] h) [[''1'', ''2'']])) else None)"
    by auto
  from CsvToSlice_table[OF r2] obtain t2 where
    t2: "CsvToSlice ''b,a\<newline>2,1\<newline>'' = Inr t2"
    and h2: "\<And>h. t2 h = (if h \<in> set [''b'', ''a'']
                then Some (concat (map (column [''b'', ''a''] h) [[''2'', ''1'']])) else None)"
    by auto
  have ca: "column [''a'', ''b''] ''a'' [''1'', ''2''] = [''1'']"
    "column [''a'', ''b''] ''b'' [''1'', ''2''] = [''2'']"
    "column [''b'', ''a''] ''a'' [''2'', ''1''] = [''1'']"
    "column [''b'', ''a''] ''b'' [''2'', ''1''] = [''2'']"
    by code_simp+
  have eq: "t1 = t2"
  proof
    fix h show "t1 h = t2 h"
      by (cases "h = ''a''"; cases "h = ''b''") (simp_all add: h1 h2 ca)
  qed
  have no: "\<not> (\<exists>order. \<forall>data headers rows t.
            ReadAll ((NewReader data)\<lparr>TrimLeadingSpace := True\<rparr>) = Inr (headers # rows)
            \<and> CsvToSlice data = Inr t \<longrightarrow> order t = headers)"
  proof
    assume "\<exists>order. \<forall>data headers rows t.
            ReadAll ((NewReader data)\<lparr>TrimLeadingSpace := True\<rparr>) = Inr (headers # rows)
            \<and> CsvToSlice data = Inr t \<longrightarrow> order t = headers"
    then obtain order :: "table \<Rightarrow> string list" where
      o: "\<And>data headers rows t.
            ReadAll ((NewReader data)\<lparr>TrimLeadingSpace := True\<rparr>) = Inr (headers # rows)
            \<Longrightarrow> CsvToSlice data = Inr t \<Longrightarrow> order t = headers"
      by blast
    from o[OF r1 t1] o[OF r2 t2] eq show False by simp
  qed
  from t1 t2 r1 r2 eq no show ?thesis by simp
qed

text \<open>
  Claim C4. An input that parses to fewer than two records (no record at all, or a header
  row with no data row) makes \<open>CsvToSlice\<close> return the error
  \<open>CSV file must contain at least one row of data\<close> and no table.
\<close>

theorem CsvToSlice_too_few_records:
  assumes "ReadAll ((NewReader data)\<lparr>TrimLeadingSpace := True\<rparr>) = Inr records"
    and "length records < 2"
  shows "CsvToSlice data = Inl (ErrorString ''CSV file must contain at least one row of data'')"
  using assms by (simp add: CsvToSlice_def Let_def)

theorem CsvToSlice_too_few_records_witness:
  "CsvToSlice '''' = Inl (ErrorString ''CSV file must contain at least one row of data'')
   \<and> CsvToSlice ''Name,Age\<newline>''
       = Inl (ErrorString ''CSV file must contain at least one row of data'')"
proof -
  have e: "ReadAll ((NewReader '''')\<lparr>TrimLeadingSpace := True\<rparr>) = Inr []"
    by code_simp
  have h: "ReadAll ((NewReader ''Name,Age\<newline>'')\<lparr>TrimLeadingSpace := True\<rparr>)
             = Inr [[''Name'', ''Age'']]"
    by code_simp
  show ?thesis
    using CsvToSlice_too_few_records[OF e] CsvToSlice_too_few_records[OF h] by simp
qed



section \<open>The claims about \<open>ConnectAIModel\<close> and the handler\<close>

text \<open>\<open>ConnectAIModel\<close> with the request it builds written out.\<close>

lemma ConnectAIModel_unfold:
  "ConnectAIModel js c payload token =
     (case Marshal js payload of
        Inl err \<Rightarrow> ((zeroResponse, Some err), [])
      | Inr payloadBytes \<Rightarrow>
          (case Client c (request payloadBytes token) of
             Inl err \<Rightarrow> ((zeroResponse, Some err), [request payloadBytes token])
           | Inr resp \<Rightarrow>
               if StatusCode resp \<noteq> 200
               then ((zeroResponse,
                      Some (ErrorString (''failed to get valid response: ''
                              @ itoa (StatusCode resp) @ '' '' @ Status resp))),
                     [request payloadBytes token])
               else
                 (case RespBody resp of
                    Inl err \<Rightarrow> ((zeroResponse, Some err), [request payloadBytes token])
                  | Inr respBody \<Rightarrow>
                      (case Decode js respBody of
                         (response, Some err) \<Rightarrow>
                           ((zeroResponse, Some err), [request payloadBytes token])
                       | (response, None) \<Rightarrow>
                           ((response, None), [request payloadBytes token])))))"
  by (simp add: ConnectAIModel_def NewRequest_def HeaderSet_def request_def Let_def
           split: sum.splits)




text \<open>
  Claim C6. When the remote endpoint answers the request with a status other than 200,
  \<open>ConnectAIModel\<close> returns the zero \<open>Response\<close> and the error whose message is
  \<open>failed to get valid response:\<close> followed by the status code in decimal and the status
  text; the outcome is the same for any other response body \<open>b\<close> and any other decoder \<open>d\<close>.
  And \<open>ConnectAIModel\<close> returns a nil error only when the endpoint answered with status 200.
\<close>

theorem ConnectAIModel_status:
  "(Marshal js payload = Inr payloadBytes
      \<and> Client c (request payloadBytes token) = Inr resp \<and> StatusCode resp \<noteq> 200
    \<longrightarrow> fst (ConnectAIModel js c payload token) =
          (zeroResponse,
           Some (ErrorString (''failed to get valid response: ''
                   @ itoa (StatusCode resp) @ '' '' @ Status resp)))
      \<and> ConnectAIModel (js\<lparr>Decode := d\<rparr>)
            (c\<lparr>Client := (Client c)(request payloadBytes token := Inr (resp\<lparr>RespBody := b\<rparr>))\<rparr>)
            payload token
          = ConnectAIModel js c payload token)
   \<and> (snd (fst (ConnectAIModel js c payload token)) = None
    \<longrightarrow> (\<exists>payloadBytes resp. Marshal js payload = Inr payloadBytes
            \<and> Client c (request payloadBytes token) = Inr resp \<and> StatusCode resp = 200))"
  by (simp add: ConnectAIModel_unfold split: sum.splits option.splits prod.splits)

theorem ConnectAIModel_status_witness:
  "fst (ConnectAIModel example_json (example_client 401 ''401 Unauthorized'' body_ok)
          example_payload ''hf_token'')
     = (zeroResponse, Some (ErrorString ''failed to get valid response: 401 401 Unauthorized''))"
proof -
  let ?c = "example_client 401 ''401 Unauthorized'' body_ok"
  let ?resp = "\<lparr>StatusCode = 401, Status = ''401 Unauthorized'', RespBody = Inr body_ok\<rparr>"
  have m: "Marshal example_json example_payload = Inr example_bytes"
    by (simp add: example_json_def)
  have c: "Client ?c (request example_bytes ''hf_token'') = Inr ?resp"
    by (simp add: example_client_def)
  have s: "StatusCode ?resp \<noteq> 200" by simp
  have i: "itoa 401 = ''401''" by code_simp
  from ConnectAIModel_status[of example_json example_payload example_bytes "?c" "''hf_token''" "?resp"]
    m c s i
  show ?thesis by simp
qed

text \<open>
  Claim C7. Whenever \<open>ConnectAIModel\<close> returns an error, the \<open>Response\<close> it returns with it
  is the zero value. In particular, when the endpoint answers with status 200 and the decoder
  fails on the body, having filled \<open>response\<close> in part (\<open>partial\<close>), what is returned is the
  zero value and the decoder's error.
\<close>

theorem ConnectAIModel_error_zero:
  "(snd (fst (ConnectAIModel js c payload token)) \<noteq> None
      \<longrightarrow> fst (fst (ConnectAIModel js c payload token)) = zeroResponse)
   \<and> (Marshal js payload = Inr payloadBytes
        \<and> Client c (request payloadBytes token) = Inr resp
        \<and> StatusCode resp = 200 \<and> RespBody resp = Inr respBody
        \<and> Decode js respBody = (partial, Some err)
      \<longrightarrow> fst (ConnectAIModel js c payload token) = (zeroResponse, Some err))"
  by (simp add: ConnectAIModel_unfold split: sum.splits option.splits prod.splits)

theorem ConnectAIModel_error_zero_witness:
  "fst (ConnectAIModel example_json (example_client 200 ''200 OK'' body_partial)
          example_payload ''hf_token'')
     = (zeroResponse,
        Some (ExternalError
          ''json: cannot unmarshal number into Go struct field Response.cells of type []string''))"
proof -
  let ?c = "example_client 200 ''200 OK'' body_partial"
  let ?resp = "\<lparr>StatusCode = 200, Status = ''200 OK'', RespBody = Inr body_partial\<rparr>"
  have m: "Marshal example_json example_payload = Inr example_bytes"
    by (simp add: example_json_def)
  have c: "Client ?c (request example_bytes ''hf_token'') = Inr ?resp"
    by (simp add: example_client_def)
  have d: "Decode example_json body_partial =
      (\<lparr>Answer = ''30'', Coordinates = [], Cells = [], Aggregator = []\<rparr>,
       Some (ExternalError
         ''json: cannot unmarshal number into Go struct field Response.cells of type []string''))"
    by (simp add: example_json_def body_partial_def body_ok_def body_uneven_def)
  from ConnectAIModel_error_zero[of example_json "?c" example_payload "''hf_token''"
         example_bytes "?resp" body_partial] m c d
  show ?thesis by simp
qed

text \<open>
  Claim C8. For a payload that \<open>json.Marshal\<close> serialises, \<open>ConnectAIModel\<close> hands to the
  client exactly one request: a POST to the fixed endpoint, with the serialised payload as
  body, the header \<open>Authorization\<close> set to \<open>Bearer\<close>, a space and the token, and the header
  \<open>Content-Type\<close> set to \<open>application/json\<close>.
\<close>

theorem ConnectAIModel_request:
  assumes "Marshal js payload = Inr payloadBytes"
  shows "snd (ConnectAIModel js c payload token) =
           [\<lparr>Method = ''POST'',
             URL = ''https://api-inference.huggingface.co/models/google/tapas-base-finetuned-wtq'',
             Header = [''Authorization'' \<mapsto> [''Bearer '' @ token],
                       ''Content-Type'' \<mapsto> [''application/json'']],
             Body = payloadBytes\<rparr>]"
  using assms
  by (simp add: ConnectAIModel_unfold request_def url_def
           split: sum.splits option.splits prod.splits)

theorem ConnectAIModel_request_witness:
  "snd (ConnectAIModel example_json (example_client 200 ''200 OK'' body_ok)
          example_payload ''hf_token'') =
     [\<lparr>Method = ''POST'',
       URL = ''https://api-inference.huggingface.co/models/google/tapas-base-finetuned-wtq'',
       Header = [''Authorization'' \<mapsto> [''Bearer hf_token''],
                 ''Content-Type'' \<mapsto> [''application/json'']],
       Body = example_bytes\<rparr>]"
proof -
  have m: "Marshal example_json example_payload = Inr example_bytes"
    by (simp add: example_json_def)
  from ConnectAIModel_request[OF m] show ?thesis by simp
qed




end
